theory Spec2Isabelle
  imports Complex_Main "HOL-Library.Word" "HOL-Library.Monad_Syntax"
begin

section \<open>Conventions of the embedding\<close>

text \<open>
  The development embeds \<^verbatim>\<open>_multiplacement.c\<close>, the placement engine of MT\_GP.

  \<^item> A C \<^verbatim>\<open>int\<close> is an \<open>int\<close>; the index arithmetic of the engine stays far from
    the 32-bit range on every input considered here. The \<^verbatim>\<open>unsigned long long\<close> of
    \<^verbatim>\<open>bin\<close> is a \<open>64 word\<close>, since its overflow test is the point of that function.
  \<^item> A C \<^verbatim>\<open>float\<close> or \<^verbatim>\<open>double\<close> is a \<open>real\<close>: arithmetic is exact, rounding is not
    modelled. A float operation whose C result is not a finite number (a division by
    zero, the logarithm of a value that is not positive) has the result \<open>None\<close>.
  \<^item> A C array is a list. Reading or writing outside of it (undefined behaviour in C) and
    an integer division by zero have the result \<open>None\<close> as well.
  \<^item> A \<^verbatim>\<open>for\<close> loop is \<open>foldM\<close> over the list of the values its counter takes.
\<close>

definition rd :: "'a list \<Rightarrow> int \<Rightarrow> 'a option" where
  "rd xs i = (if 0 \<le> i \<and> i < int (length xs) then Some (xs ! nat i) else None)"

definition wr :: "'a list \<Rightarrow> int \<Rightarrow> 'a \<Rightarrow> 'a list option" where
  "wr xs i v = (if 0 \<le> i \<and> i < int (length xs) then Some (xs[nat i := v]) else None)"

primrec foldM :: "('a \<Rightarrow> 's \<Rightarrow> 's option) \<Rightarrow> 'a list \<Rightarrow> 's \<Rightarrow> 's option" where
  "foldM f [] s = Some s"
| "foldM f (x # xs) s = (case f x s of None \<Rightarrow> None | Some s' \<Rightarrow> foldM f xs s')"

definition fdiv :: "real \<Rightarrow> real \<Rightarrow> real option" where
  "fdiv x y = (if y = 0 then None else Some (x / y))"

definition flog2 :: "real \<Rightarrow> real option" where
  "flog2 x = (if 0 < x then Some (log 2 x) else None)"

section \<open>ScoreMath\<close>

subsection \<open>The binomial coefficient\<close>

text \<open>
  \<^verbatim>\<open>bin\<close> has two \<^verbatim>\<open>return\<close> statements: the one inside the loop, taken when the
  overflow test fires, and the one after the loop. The loop's model records which one
  was taken. \<^verbatim>\<open>ULONG_MAX\<close> is that of an LP64 platform, where \<^verbatim>\<open>unsigned long\<close> has
  64 bits.
\<close>

datatype bin_return = Overflow | Result "64 word"

definition ULONG_MAX :: "64 word" where
  "ULONG_MAX = - 1"

function bin_loop :: "64 word \<Rightarrow> 64 word \<Rightarrow> 64 word \<Rightarrow> 64 word \<Rightarrow> bin_return option" where
  "bin_loop c i n k =
     (if i \<le> k then
        (if i = 0 \<or> n = 0 then None
         else if c div i > ULONG_MAX div n then Some Overflow
         else bin_loop (c div i * n + c mod i * n div i) (i + 1) (n - 1) k)
      else Some (Result c))"
  by pat_completeness auto
termination
proof (relation "measure (\<lambda>(c, i, n, k). unat n)")
  show "wf (measure (\<lambda>(c, i, n, k). unat n))" by simp
next
  fix c i n k :: "64 word"
  assume "\<not> (i = 0 \<or> n = 0)"
  then have "n \<noteq> 0" by simp
  then have "unat (n - 1) < unat n"
    by (simp add: unat_minus_one unat_gt_0 word_neq_0_conv)
  then show "((c div i * n + c mod i * n div i, i + 1, n - 1, k), c, i, n, k)
       \<in> measure (\<lambda>(c, i, n, k). unat n)" by simp
qed

declare bin_loop.simps [simp del]

fun returned :: "bin_return \<Rightarrow> 64 word" where
  "returned Overflow = 0"
| "returned (Result c) = c"

definition bin :: "64 word \<Rightarrow> 64 word \<Rightarrow> 64 word option" where
  "bin n k = map_option returned (bin_loop 1 1 n k)"

subsection \<open>The Gaussian model of a connector\<close>

text \<open>
  \<^verbatim>\<open>erff\<close> is the C library's; it stands here for the error function itself, given by
  its power series.
\<close>

definition erff :: "real \<Rightarrow> real" where
  "erff z = 2 / sqrt pi * (\<Sum>n. (- 1) ^ n * z ^ (2 * n + 1) / (fact n * real (2 * n + 1)))"

definition norm_cdf :: "real \<Rightarrow> real \<Rightarrow> real \<Rightarrow> real" where
  "norm_cdf x mu sigma = (let z = (x - mu) / \<bar>sigma\<bar> in (1 + erff (z / sqrt 2)) / 2)"

definition norm_pf :: "real \<Rightarrow> real \<Rightarrow> real \<Rightarrow> real" where
  "norm_pf x mu sigma =
     (if sigma \<noteq> 0 then norm_cdf (x + 0.5) mu sigma - norm_cdf (x - 0.5) mu sigma
      else if x = mu then 1
      else 0)"

definition get_numerator :: "int \<Rightarrow> int \<Rightarrow> real \<Rightarrow> real \<Rightarrow> real" where
  "get_numerator dna_length distance mu sigma =
     (let numerator = norm_pf (real_of_int distance) mu sigma in
      if sigma = 0 then numerator
      else
        let auc = norm_cdf (real_of_int (dna_length - 1)) mu sigma - norm_cdf 0 mu sigma;
            auc = (if auc < 0.000001 then 0.000001 else auc);
            numerator = (if numerator < 0.00001 then 0.00001 else numerator)
        in numerator / auc)"

definition get_denominator :: "int \<Rightarrow> int \<Rightarrow> int \<Rightarrow> real option" where
  "get_denominator d N L =
     (if 1 \<le> d \<and> d \<le> L - N + 1 then do {
        a \<leftarrow> bin (word_of_int (L - d)) (word_of_int (N - 1));
        b \<leftarrow> bin (word_of_int L) (word_of_int N);
        fdiv (real (unat a)) (real (unat b))
      }
      else Some 0.0001)"

text \<open>
  The table \<^verbatim>\<open>NUMERATORS\<close> comes from \<^verbatim>\<open>_constants.h\<close>, which is not part of the
  sources at hand: it is a parameter of \<open>get_score\<close> and of everything that calls it.
\<close>

definition get_score ::
  "real list \<Rightarrow> real list \<Rightarrow> int \<Rightarrow> int \<Rightarrow> int \<Rightarrow> int \<Rightarrow> int \<Rightarrow> int \<Rightarrow> bool \<Rightarrow> real option" where
  "get_score NUMERATORS arr dna_length effective_length num_rec gap_size max_length curr_conn
       is_precomputed =
     (if \<not> is_precomputed then do {
        mu \<leftarrow> rd arr (curr_conn * 2);
        sigma \<leftarrow> rd arr (curr_conn * 2 + 1);
        den \<leftarrow> get_denominator (gap_size + 1) num_rec effective_length;
        q \<leftarrow> fdiv (get_numerator dna_length gap_size mu sigma) den;
        flog2 q
      }
      else do {
        v \<leftarrow> rd arr (curr_conn * max_length + gap_size);
        l \<leftarrow> flog2 v;
        a1 \<leftarrow> rd NUMERATORS ((effective_length - (gap_size + 1)) - 1);
        a2 \<leftarrow> rd NUMERATORS ((num_rec - 1) - 1);
        a3 \<leftarrow> rd NUMERATORS (effective_length - (gap_size + 1) - (num_rec - 1) - 1);
        b1 \<leftarrow> rd NUMERATORS (effective_length - 1);
        b2 \<leftarrow> rd NUMERATORS (num_rec - 1);
        b3 \<leftarrow> rd NUMERATORS (effective_length - num_rec - 1);
        Some (l - ((a1 - a2 - a3) - (b1 - b2 - b3)))
      })"

section \<open>OffsetGeometry\<close>

definition get_forward_offset :: "int \<Rightarrow> int list \<Rightarrow> int \<Rightarrow> int option" where
  "get_forward_offset index cols num_rec =
     foldM (\<lambda>i offset. do { c \<leftarrow> rd cols i; Some (offset + c) }) [0..index - 1] 0"

definition get_reverse_offset :: "int \<Rightarrow> int list \<Rightarrow> int \<Rightarrow> int option" where
  "get_reverse_offset index cols num_rec = do {
     offset \<leftarrow> foldM (\<lambda>i offset. do { c \<leftarrow> rd cols i; Some (offset + c) })
                 (rev [index..num_rec - 1]) 0;
     Some (offset - 1)
   }"

definition max_index :: "real list \<Rightarrow> int \<Rightarrow> int option" where
  "max_index arr size_arr =
     foldM (\<lambda>i max_idx. do {
              a \<leftarrow> rd arr i;
              b \<leftarrow> rd arr max_idx;
              Some (if a > b then i else max_idx)
            }) [0..size_arr - 1] 0"

section \<open>RecognizerScorer\<close>

text \<open>One pass of the innermost loop of \<^verbatim>\<open>fill_matrix\<close>: the \<^verbatim>\<open>switch\<close> on the base.\<close>

definition add_base :: "string \<Rightarrow> real list \<Rightarrow> int \<Rightarrow> int \<Rightarrow> int \<Rightarrow> real \<Rightarrow> real option" where
  "add_base seq pssm forward_offset j k score = do {
     b \<leftarrow> rd seq (j + k);
     if b = CHR ''A'' \<or> b = CHR ''a'' then do {
       p \<leftarrow> rd pssm ((forward_offset + k) * 4 + 0); Some (score + p) }
     else if b = CHR ''G'' \<or> b = CHR ''g'' then do {
       p \<leftarrow> rd pssm ((forward_offset + k) * 4 + 1); Some (score + p) }
     else if b = CHR ''C'' \<or> b = CHR ''c'' then do {
       p \<leftarrow> rd pssm ((forward_offset + k) * 4 + 2); Some (score + p) }
     else if b = CHR ''T'' \<or> b = CHR ''t'' then do {
       p \<leftarrow> rd pssm ((forward_offset + k) * 4 + 3); Some (score + p) }
     else Some score
   }"

definition fill_matrix ::
  "string \<Rightarrow> int \<Rightarrow> real list \<Rightarrow> int list \<Rightarrow> int \<Rightarrow> real list \<Rightarrow> int \<Rightarrow> real list option" where
  "fill_matrix seq len_seq pssm cols num_rec score_matrix num_alignments =
     foldM (\<lambda>i score_matrix. do {
              forward_offset \<leftarrow> get_forward_offset i cols num_rec;
              reverse_offset \<leftarrow> get_reverse_offset i cols num_rec;
              foldM (\<lambda>j score_matrix. do {
                       w \<leftarrow> rd cols i;
                       score \<leftarrow> foldM (add_base seq pssm forward_offset j) [0..w - 1] 0;
                       wr score_matrix (i * num_alignments + j - forward_offset) score
                     }) [forward_offset..len_seq - reverse_offset - 1] score_matrix
            }) [0..num_rec - 1] score_matrix"

section \<open>PlacementSolver\<close>

text \<open>
  The score of one candidate of the innermost loop of \<^verbatim>\<open>fill_traceback_matrix\<close>: recognizer
  \<open>i\<close> ends the placement at column \<open>j\<close>, the previous one at column \<open>k\<close>.
\<close>

definition candidate ::
  "real list \<Rightarrow> real list \<Rightarrow> int \<Rightarrow> int \<Rightarrow> int \<Rightarrow> int \<Rightarrow> bool \<Rightarrow> real list \<Rightarrow> int \<Rightarrow>
   real list \<Rightarrow> int \<Rightarrow> int \<Rightarrow> int \<Rightarrow> real option" where
  "candidate NUMERATORS gapMatrix len_seq effective_length num_rec max_length is_precomputed
       score_matrix num_alignments alignments i j k = do {
     temp_gap_score \<leftarrow> get_score NUMERATORS gapMatrix len_seq effective_length num_rec (j - k)
                         max_length (i - 1) is_precomputed;
     a \<leftarrow> rd alignments k;
     s \<leftarrow> rd score_matrix (i * num_alignments + j);
     Some (a + temp_gap_score + s)
   }"

text \<open>
  The loop over \<open>k\<close> for one column \<open>j\<close>. Its result is the pair
  \<^verbatim>\<open>(temp_max_scores[j], temp_gap_lengths[j])\<close>: the pass \<open>k = 0\<close> assigns both cells
  before anything reads them, so what the two temporary arrays held before (the copy of
  the first row, later \<^verbatim>\<open>-INFINITY\<close> and 0) never reaches a result.
\<close>

definition scan_k ::
  "real list \<Rightarrow> real list \<Rightarrow> int \<Rightarrow> int \<Rightarrow> int \<Rightarrow> int \<Rightarrow> bool \<Rightarrow> real list \<Rightarrow> int \<Rightarrow>
   real list \<Rightarrow> int \<Rightarrow> int \<Rightarrow> (real \<times> int) option" where
  "scan_k NUMERATORS gapMatrix len_seq effective_length num_rec max_length is_precomputed
       score_matrix num_alignments alignments i j = do {
     c0 \<leftarrow> candidate NUMERATORS gapMatrix len_seq effective_length num_rec max_length
             is_precomputed score_matrix num_alignments alignments i j 0;
     foldM (\<lambda>k (temp_max_score, temp_gap_length). do {
              c \<leftarrow> candidate NUMERATORS gapMatrix len_seq effective_length num_rec max_length
                     is_precomputed score_matrix num_alignments alignments i j k;
              Some (if temp_max_score < c then (c, j - k) else (temp_max_score, temp_gap_length))
            }) [1..j] (c0, j - 0)
   }"

text \<open>
  One pass of the loop over the recognizers \<open>i = 1, \<dots>, num_rec - 1\<close>: the columns \<open>j\<close>
  are scanned, then the temporaries are copied into \<^verbatim>\<open>alignments\<close> and into row \<open>i - 1\<close>
  of \<^verbatim>\<open>gap_alignments\<close>.
\<close>

definition fill_stage ::
  "real list \<Rightarrow> real list \<Rightarrow> int \<Rightarrow> int \<Rightarrow> int \<Rightarrow> int \<Rightarrow> bool \<Rightarrow> real list \<Rightarrow> int \<Rightarrow>
   int \<Rightarrow> real list \<times> int list \<Rightarrow> (real list \<times> int list) option" where
  "fill_stage NUMERATORS gapMatrix len_seq effective_length num_rec max_length is_precomputed
       score_matrix num_alignments i = (\<lambda>(alignments, gap_alignments). do {
     temps \<leftarrow> those (map (scan_k NUMERATORS gapMatrix len_seq effective_length num_rec max_length
                            is_precomputed score_matrix num_alignments alignments i)
                       [0..num_alignments - 1]);
     foldM (\<lambda>l (alignments, gap_alignments). do {
              t \<leftarrow> rd temps l;
              alignments \<leftarrow> wr alignments l (fst t);
              gap_alignments \<leftarrow> wr gap_alignments ((i - 1) * num_alignments + l) (snd t);
              Some (alignments, gap_alignments)
            }) [0..num_alignments - 1] (alignments, gap_alignments)
   })"

section \<open>TracebackReconstructor\<close>

definition traceback ::
  "real list \<Rightarrow> int \<Rightarrow> int \<Rightarrow> real list \<Rightarrow> real list \<Rightarrow> int \<Rightarrow> real list \<Rightarrow> int list \<Rightarrow>
   real list \<Rightarrow> real list \<Rightarrow> int list \<Rightarrow> int \<Rightarrow> int \<Rightarrow> bool \<Rightarrow>
   (real list \<times> real list \<times> int list) option" where
  "traceback NUMERATORS num_rec len_seq con_matrices rec_score_matrix num_alignments
       rec_alignments con_alignments rec_scores con_scores con_lengths max_seq_len effective_len
       is_precomputed = do {
     index \<leftarrow> max_index rec_alignments num_alignments;
     g \<leftarrow> rd con_alignments ((num_rec - 2) * num_alignments + index);
     con_lengths \<leftarrow> wr con_lengths (num_rec - 1) g;
     best \<leftarrow> rd rec_alignments index;
     rec_scores \<leftarrow> wr rec_scores num_rec best;
     (con_lengths, index) \<leftarrow>
       foldM (\<lambda>i (con_lengths, index). do {
                c \<leftarrow> rd con_lengths (i + 2);
                g \<leftarrow> rd con_alignments (i * num_alignments + index - c);
                con_lengths \<leftarrow> wr con_lengths (i + 1) g;
                Some (con_lengths, index - c)
              }) (rev [0..num_rec - 3]) (con_lengths, index);
     c \<leftarrow> rd con_lengths 1;
     con_lengths \<leftarrow> wr con_lengths 0 (index - c);
     con_scores \<leftarrow>
       foldM (\<lambda>i con_scores. do {
                c \<leftarrow> rd con_lengths (i + 1);
                s \<leftarrow> get_score NUMERATORS con_matrices len_seq effective_len num_rec c max_seq_len
                       i is_precomputed;
                wr con_scores i s
              }) [0..num_rec - 2] con_scores;
     (rec_scores, gapOffset) \<leftarrow>
       foldM (\<lambda>i (rec_scores, gapOffset). do {
                c \<leftarrow> rd con_lengths i;
                s \<leftarrow> rd rec_score_matrix (i * num_alignments + (gapOffset + c));
                rec_scores \<leftarrow> wr rec_scores i s;
                Some (rec_scores, gapOffset + c)
              }) [0..num_rec - 1] (rec_scores, 0);
     Some (rec_scores, con_scores, con_lengths)
   }"

definition fill_traceback_matrix ::
  "real list \<Rightarrow> real list \<Rightarrow> int \<Rightarrow> real list \<Rightarrow> int list \<Rightarrow> int \<Rightarrow> int \<Rightarrow> real list \<Rightarrow>
   real list \<Rightarrow> int list \<Rightarrow> int \<Rightarrow> bool \<Rightarrow> (real list \<times> real list \<times> int list) option" where
  "fill_traceback_matrix NUMERATORS score_matrix num_alignments gapMatrix cols num_rec len_seq
       con_scores rec_scores con_lengths max_length is_precomputed = do {
     sum_of_lengths \<leftarrow> foldM (\<lambda>i s. do { c \<leftarrow> rd cols i; Some (s + c) }) [0..num_rec - 1] 0;
     let effective_length = len_seq - sum_of_lengths;
     alignments \<leftarrow> those (map (rd score_matrix) [0..num_alignments - 1]);
     (alignments, gap_alignments) \<leftarrow>
       foldM (fill_stage NUMERATORS gapMatrix len_seq effective_length num_rec max_length
                is_precomputed score_matrix num_alignments)
         [1..num_rec - 1]
         (alignments, replicate (nat (num_alignments * (num_rec - 1))) 0);
     traceback NUMERATORS num_rec len_seq gapMatrix score_matrix num_alignments alignments
       gap_alignments rec_scores con_scores con_lengths max_length effective_length
       is_precomputed
   }"

section \<open>The entry point\<close>

text \<open>
  \<^verbatim>\<open>py_calculate\<close> after its arguments are unpacked: \<open>len_seq\<close> is the length of the
  sequence and \<open>num_rec\<close> that of \<open>rec_lengths\<close>; \<^verbatim>\<open>con_matrices.shape[0]\<close> is the length
  of the flat connector array. The result is the content of the three output buffers.
\<close>

definition py_calculate ::
  "real list \<Rightarrow> string \<Rightarrow> real list \<Rightarrow> int list \<Rightarrow> real list \<Rightarrow> real list \<Rightarrow> real list \<Rightarrow>
   int list \<Rightarrow> int \<Rightarrow> (real list \<times> real list \<times> int list) option" where
  "py_calculate NUMERATORS seq rec_matrices rec_lengths con_matrices rec_scores con_scores
       con_lengths max_length = do {
     let len_seq = int (length seq);
     let num_rec = int (length rec_lengths);
     forward_offset \<leftarrow> get_forward_offset 0 rec_lengths num_rec;
     reverse_offset \<leftarrow> get_reverse_offset 0 rec_lengths num_rec;
     let num_alignments = len_seq - forward_offset - reverse_offset;
     score_matrix \<leftarrow> fill_matrix seq len_seq rec_matrices rec_lengths num_rec
                      (replicate (nat (num_alignments * num_rec)) 0) num_alignments;
     let is_precomputed = (int (length con_matrices) \<noteq> (num_rec - 1) * 2);
     if num_rec = 1 then do {
       m \<leftarrow> max_index score_matrix (len_seq - forward_offset - reverse_offset);
       con_lengths \<leftarrow> wr con_lengths 0 m;
       c \<leftarrow> rd con_lengths 0;
       s \<leftarrow> rd score_matrix c;
       rec_scores \<leftarrow> wr rec_scores 0 s;
       con_scores \<leftarrow> wr con_scores 0 0;
       Some (rec_scores, con_scores, con_lengths)
     }
     else fill_traceback_matrix NUMERATORS score_matrix num_alignments con_matrices rec_lengths
            num_rec len_seq con_scores rec_scores con_lengths max_length is_precomputed
   }"

section \<open>Devices of the proofs\<close>

text \<open>
  The falling factorial \<open>n (n - 1) \<dots> (n - k + 1)\<close>, times an accumulator: it evaluates binomial
  coefficients of numerals with multiplications only.
\<close>

fun falling :: "nat \<Rightarrow> nat \<Rightarrow> nat \<Rightarrow> nat" where
  "falling acc n k = (if k = 0 then acc else falling (acc * n) (n - 1) (k - 1))"

declare falling.simps [simp del]


text \<open>
  For \<open>m = 1, \<dots>, 33\<close>: the least \<open>ns\<close> whose coefficient \<open>ns choose (m + 1)\<close> needs more than
  64 bits, and the least \<open>t\<close> with \<open>t * (ns - m) \<ge> 2 ^ 64\<close>.
\<close>

definition first_overflow :: "(nat \<times> nat \<times> nat) list" where
  "first_overflow =
    [(1, 6074001001, 3037000500), (2, 4801281, 3842047936334), (3, 145057,
     127171564201674), (4, 18581, 992988322856735), (5, 4869, 3792504949364629), (6,
     1914, 9668104860434776), (7, 968, 19195363240072375), (8, 578,
     32362708901244828), (9, 387, 48800910247908867), (10, 283, 67570491112489201),
     (11, 219, 88686269585142076), (12, 178, 111124964299455131), (13, 151,
     133672058505141679), (14, 131, 157664479262474801), (15, 117,
     180850432095191683), (16, 106, 204963823041217241), (17, 98,
     227737581156908045), (18, 92, 249280325320399347), (19, 87, 271275648142787524),
     (20, 83, 292805461487453201), (21, 79, 318047311615681925), (22, 77,
     335395346794719121), (23, 75, 354745078340568301), (24, 73, 376464164769582687),
     (25, 72, 392483916461905354), (26, 71, 409927646082434481), (27, 70,
     428994048225803526), (28, 69, 449920587163647601), (29, 69, 461168601842738791),
     (30, 68, 485440633518672411), (31, 68, 498560650640798693), (32, 68,
     512409557603043101), (33, 68, 527049830677415761)]"


text \<open>
  The vocabulary of the statement on the recognizer scorer: the column of the score block
  that a base selects, and the score of a recognizer whose block starts at row \<open>first_row\<close>
  and has \<open>w\<close> rows, placed at position \<open>start\<close> of the sequence.
\<close>

definition base_column :: "char \<Rightarrow> nat option" where
  "base_column b =
     (if b = CHR ''A'' \<or> b = CHR ''a'' then Some 0
      else if b = CHR ''G'' \<or> b = CHR ''g'' then Some 1
      else if b = CHR ''C'' \<or> b = CHR ''c'' then Some 2
      else if b = CHR ''T'' \<or> b = CHR ''t'' then Some 3
      else None)"

definition position_score :: "string \<Rightarrow> real list \<Rightarrow> int \<Rightarrow> int \<Rightarrow> int \<Rightarrow> real" where
  "position_score seq pssm first_row w start =
     (\<Sum>k = 0..<nat w. case base_column (seq ! (nat start + k)) of
                          None \<Rightarrow> 0
                        | Some c \<Rightarrow> pssm ! (4 * (nat first_row + k) + c))"


section \<open>The connector numerator\<close>

lemma floor_as_max: "(if a < c then c else a) = max a (c::real)"
  by (simp add: max_def)

lemma get_numerator_max:
  "sigma \<noteq> 0 \<Longrightarrow> get_numerator L d mu sigma =
      max (norm_pf (real_of_int d) mu sigma) 0.00001
      / max (norm_cdf (real_of_int (L - 1)) mu sigma - norm_cdf 0 mu sigma) 0.000001"
  unfolding get_numerator_def Let_def floor_as_max by simp

lemma get_numerator_pos: "sigma \<noteq> 0 \<Longrightarrow> 0 < get_numerator L d mu sigma"
  unfolding get_numerator_max
  by (intro divide_pos_pos) (simp_all add: less_max_iff_disj)


text \<open>
  Claim C3, as the code has it. With \<open>sigma \<noteq> 0\<close> the point mass is floored at 0.00001 and
  the normalising mass at 0.000001 (not 0.0001) before the division, and the quotient is
  strictly positive; with \<open>sigma = 0\<close> the point mass, 1 at the mean and 0 elsewhere, is
  returned as it is.
\<close>

theorem get_numerator_floors:
  "get_numerator dna_length distance mu sigma =
     (if sigma = 0 then (if real_of_int distance = mu then 1 else 0)
      else max (norm_pf (real_of_int distance) mu sigma) (1 / 10 ^ 5)
           / max (norm_cdf (real_of_int (dna_length - 1)) mu sigma - norm_cdf 0 mu sigma) (1 / 10 ^ 6))
   \<and> (if sigma = 0 then get_numerator dna_length distance mu sigma = norm_pf (real_of_int distance) mu sigma
      else 0 < get_numerator dna_length distance mu sigma)"
proof (cases "sigma = 0")
  case True
  then show ?thesis by (simp add: get_numerator_def norm_pf_def)
next
  case False
  then show ?thesis using get_numerator_pos [OF False] get_numerator_max [OF False]
    by simp
qed


text \<open>
  Claim C3 as stated, with the normalising mass floored at 0.0001, fails for a sequence
  of length 1: the mass is 0 there, the code divides by 0.000001.
\<close>

theorem get_numerator_floor_counterexample:
  "get_numerator 1 0 0 1 \<noteq>
     max (norm_pf (real_of_int 0) 0 1) (1 / 10 ^ 5)
     / max (norm_cdf (real_of_int (1 - 1)) 0 1 - norm_cdf 0 0 1) (1 / 10 ^ 4)"
proof -
  define m where "m = max (norm_pf (real_of_int 0) 0 1) (1 / 10 ^ 5)"
  have pos: "0 < m" by (simp add: m_def less_max_iff_disj)
  have "get_numerator 1 0 0 1 = m / max (norm_cdf (real_of_int (1 - 1)) 0 1 - norm_cdf 0 0 1) 0.000001"
    unfolding m_def by (subst get_numerator_max) simp_all
  then have "get_numerator 1 0 0 1 = m * 10 ^ 6" by simp
  moreover have "m / max (norm_cdf (real_of_int (1 - 1)) 0 1 - norm_cdf 0 0 1) (1 / 10 ^ 4) = m * 10 ^ 4"
    by simp
  ultimately show ?thesis using pos unfolding m_def [symmetric] by simp
qed

section \<open>The binomial coefficient on 64 bits\<close>

lemma choose_step: "(n0 choose m) * (n0 - m) = Suc m * (n0 choose Suc m)"
  using binomial_absorb_comp [of n0 m] binomial_absorption [of m n0]
  by (simp add: mult.commute)

lemma split_quotient:
  fixes c n d :: nat
  assumes "0 < d"
  shows "c div d * n + c mod d * n div d = c * n div d"
proof -
  have "c * n = (c div d * n) * d + c mod d * n"
    by (metis div_mult_mod_eq distrib_right mult.assoc mult.commute)
  then have "c * n div d = (c div d * n) + c mod d * n div d"
    using assms by (metis div_mult_self3 add.commute nat_neq_iff)
  then show ?thesis by simp
qed

lemma two_prod_le: 
  fixes m n0 :: nat
  assumes "1 \<le> m" "m < n0"
  shows "m * (n0 - m) \<le> n0 choose 2"
proof -
  obtain b where b: "n0 = m + b" "1 \<le> b" using assms
    by (metis Suc_leI add_diff_inverse_nat less_imp_add_positive not_less_iff_gr_or_eq One_nat_def)
  have mm: "m \<le> m * m" and bb: "b \<le> b * b" by simp_all
  have "(m + b) * (m + b) = m * m + b * b + 2 * (m * b)"
    by (simp add: algebra_simps)
  then have "2 * (m * b) + (m + b) \<le> (m + b) * (m + b)"
    using mm bb by linarith
  then have "2 * (m * b) \<le> (m + b) * (m + b - 1)"
    by (simp add: algebra_simps diff_mult_distrib2)
  then have "m * b \<le> (m + b) * (m + b - 1) div 2" by simp
  then show ?thesis by (simp add: b choose_two)
qed


lemma choose_two_bound:
  assumes "n0 choose 2 < 2 ^ 64"
  shows "Suc n0 < 2 ^ 64"
proof (cases "n0 < 4")
  case True
  then show ?thesis by (simp add: less_trans [of "Suc n0" 5])
next
  case False
  then have "3 \<le> n0 - 1" by simp
  then have "3 * n0 \<le> (n0 - 1) * n0" by (rule mult_le_mono1)
  moreover have "2 * Suc n0 \<le> 3 * n0" using False by simp
  ultimately have "2 * Suc n0 \<le> n0 * (n0 - 1)" by (simp only: mult.commute [of n0])
  then have "Suc n0 \<le> n0 * (n0 - 1) div 2" by simp
  then show ?thesis using assms by (simp add: choose_two)
qed

lemma unat_ULONG_MAX: "unat ULONG_MAX = 2 ^ 64 - 1"
  by (simp add: ULONG_MAX_def unsigned_minus_1_eq_mask mask_eq_exp_minus_1)

lemma bin_test:
  fixes c i n :: "64 word"
  assumes "i \<noteq> 0" "n \<noteq> 0"
  shows "(c div i > ULONG_MAX div n) \<longleftrightarrow> 2 ^ 64 \<le> (unat c div unat i) * unat n"
proof -
  have n0: "0 < unat n" using assms by (simp add: unat_gt_0)
  have "(c div i > ULONG_MAX div n) \<longleftrightarrow> (2 ^ 64 - 1) div unat n < unat c div unat i"
    by (simp add: word_less_nat_alt unat_div unat_ULONG_MAX)
  also have "\<dots> \<longleftrightarrow> \<not> (unat c div unat i) * unat n \<le> 2 ^ 64 - 1"
    using less_eq_div_iff_mult_less_eq [OF n0, of "unat c div unat i" "2 ^ 64 - 1"]
    by linarith
  also have "\<dots> \<longleftrightarrow> 2 ^ 64 \<le> (unat c div unat i) * unat n"
    by (simp add: not_le Suc_le_eq [symmetric])
  finally show ?thesis .
qed

lemma bin_loop_overflow:
  fixes c i n k :: "64 word"
  assumes "i \<le> k" "i \<noteq> 0" "n \<noteq> 0" "2 ^ 64 \<le> (unat c div unat i) * unat n"
  shows "bin_loop c i n k = Some Overflow"
  using assms bin_test [of i n c] by (subst bin_loop.simps) simp

lemma bin_loop_continue:
  fixes c i n k :: "64 word"
  assumes c: "unat c = n0 choose m" and i: "unat i = Suc m" and n: "unat n = n0 - m"
    and mk: "Suc m \<le> unat k" and kn: "unat k \<le> n0"
    and fits: "n0 choose Suc m < 2 ^ 64"
    and two: "1 \<le> m \<Longrightarrow> n0 choose 2 < 2 ^ 64"
  shows "\<exists>c' i' n'. bin_loop c i n k = bin_loop c' i' n' k \<and> unat c' = n0 choose Suc m
            \<and> unat i' = Suc (Suc m) \<and> unat n' = n0 - Suc m"
proof -
  let ?q = "(n0 choose m) div Suc m" and ?r = "(n0 choose m) mod Suc m"
  have mn: "m < n0" using mk kn by simp
  have i': "Suc (Suc m) < 2 ^ 64"
  proof (cases "m = 0")
    case True then show ?thesis by simp
  next
    case False
    then have "Suc n0 < 2 ^ 64" using two choose_two_bound by simp
    then show ?thesis using mn by simp
  qed
  have ik: "i \<le> k" using i mk by (simp add: word_le_nat_alt)
  have i0: "i \<noteq> 0" using i by (metis Zero_not_Suc unat_0)
  have n0: "n \<noteq> 0" using n mn by (metis unat_0 zero_less_diff less_numeral_extra(3))
  have tot: "?q * (n0 - m) + ?r * (n0 - m) div Suc m = n0 choose Suc m"
    using split_quotient [of "Suc m" "n0 choose m" "n0 - m"]
    by (simp only: choose_step nonzero_mult_div_cancel_left [of "Suc m"] zero_less_Suc nat.distinct simp_thms)
  have q: "?q * (n0 - m) < 2 ^ 64" using tot fits by linarith
  have r: "?r * (n0 - m) < 2 ^ 64"
  proof (cases "m = 0")
    case True then show ?thesis by simp
  next
    case False
    then have "1 \<le> m" by simp
    have "?r \<le> m" by (simp add: less_Suc_eq_le [symmetric])
    then have "?r * (n0 - m) \<le> m * (n0 - m)" by (rule mult_le_mono1)
    also have "\<dots> \<le> n0 choose 2" using two_prod_le [OF \<open>1 \<le> m\<close> mn] .
    finally show ?thesis using two [OF \<open>1 \<le> m\<close>] by linarith
  qed
  have test: "\<not> c div i > ULONG_MAX div n"
    using bin_test [OF i0 n0, of c] q by (simp add: c i n)
  have u1: "unat (c div i * n) = ?q * (n0 - m)"
    using q unat_mult_lem [of "c div i" n] by (simp add: unat_div c i n)
  have u2: "unat (c mod i * n) = ?r * (n0 - m)"
    using r unat_mult_lem [of "c mod i" n] by (simp add: unat_mod c i n)
  have u3: "unat (c mod i * n div i) = ?r * (n0 - m) div Suc m"
    by (simp add: unat_div u2 i)
  have u4: "unat (c div i * n + c mod i * n div i) = n0 choose Suc m"
    using unat_add_lem [of "c div i * n" "c mod i * n div i"] tot fits by (simp add: u1 u3)
  have u5: "unat (i + 1) = Suc (Suc m)"
    using unat_add_lem [of i 1] i' by (simp add: i)
  have u6: "unat (n - 1) = n0 - Suc m"
    using n0 by (simp add: unat_minus_one n)
  have "bin_loop c i n k = bin_loop (c div i * n + c mod i * n div i) (i + 1) (n - 1) k"
    using ik i0 n0 test by (subst bin_loop.simps) simp
  then show ?thesis using u4 u5 u6 by blast
qed


lemma bin_loop_prefix:
  fixes n k :: "64 word"
  assumes "m \<le> unat k" "unat k \<le> unat n" "\<forall>j\<le>m. unat n choose j < 2 ^ 64"
  shows "\<exists>c i n'. bin_loop 1 1 n k = bin_loop c i n' k \<and> unat c = unat n choose m
            \<and> unat i = Suc m \<and> unat n' = unat n - m"
  using assms
proof (induction m)
  case 0
  have "bin_loop 1 1 n k = bin_loop 1 1 n k \<and> unat (1 :: 64 word) = unat n choose 0
        \<and> unat (1 :: 64 word) = Suc 0 \<and> unat n = unat n - 0" by simp
  then show ?case by blast
next
  case (Suc m)
  then obtain c i n' where st: "bin_loop 1 1 n k = bin_loop c i n' k" "unat c = unat n choose m"
      "unat i = Suc m" "unat n' = unat n - m"
    by auto
  have two: "1 \<le> m \<Longrightarrow> unat n choose 2 < 2 ^ 64" using Suc.prems(3) by simp
  have fits: "unat n choose Suc m < 2 ^ 64" using Suc.prems(3) by simp
  from bin_loop_continue [OF st(2) st(3) st(4) Suc.prems(1) Suc.prems(2) fits two]
  show ?case using st(1) by auto
qed

lemma bin_loop_exact:
  fixes n k :: "64 word"
  assumes "unat k \<le> unat n" "\<forall>j\<le>unat k. unat n choose j < 2 ^ 64"
  shows "bin_loop 1 1 n k = Some (Result (of_nat (unat n choose unat k)))"
proof -
  obtain c i n' where st: "bin_loop 1 1 n k = bin_loop c i n' k" "unat c = unat n choose unat k"
      "unat i = Suc (unat k)"
    using bin_loop_prefix [OF le_refl assms] by auto
  have "\<not> i \<le> k" using st(3) by (simp add: word_le_nat_alt)
  then have "bin_loop c i n' k = Some (Result c)" by (subst bin_loop.simps) simp
  moreover have "c = of_nat (unat n choose unat k)" by (simp add: st(2) [symmetric])
  ultimately show ?thesis using st(1) by simp
qed

lemma bin_loop_crossing:
  fixes n k :: "64 word"
  assumes "Suc m \<le> unat k" "unat k \<le> unat n" "\<forall>j\<le>m. unat n choose j < 2 ^ 64"
    and "2 ^ 64 \<le> (unat n choose m) div Suc m * (unat n - m)"
  shows "bin_loop 1 1 n k = Some Overflow"
proof -
  have "m \<le> unat k" using assms(1) by simp
  from bin_loop_prefix [OF this assms(2,3)]
  obtain c i n' where st: "bin_loop 1 1 n k = bin_loop c i n' k" "unat c = unat n choose m"
      "unat i = Suc m" "unat n' = unat n - m"
    by auto
  have ik: "i \<le> k" using st(3) assms(1) by (simp add: word_le_nat_alt)
  have i0: "i \<noteq> 0" using st(3) by (metis Zero_not_Suc unat_0)
  have n0: "n' \<noteq> 0" using st(4) assms(1,2) by (metis unat_0 zero_less_diff less_numeral_extra(3) Suc_le_lessD le_trans not_less)
  show ?thesis using bin_loop_overflow [OF ik i0 n0] assms(4) st by simp
qed

lemma falling_choose: "falling acc n k = acc * (fact k * (n choose k))"
proof (induction k arbitrary: acc n)
  case 0
  then show ?case by (subst falling.simps) simp
next
  case (Suc k)
  have "acc * n * (fact k * (n - 1 choose k)) = acc * (fact k * (n * (n - 1 choose k)))"
    by (simp only: ac_simps)
  also have "\<dots> = acc * (fact k * (Suc k * (n choose Suc k)))"
    by (simp only: binomial_absorption)
  also have "\<dots> = acc * (fact (Suc k) * (n choose Suc k))"
    by (simp only: fact_Suc of_nat_id ac_simps)
  finally have "acc * n * (fact k * (n - 1 choose k)) = acc * (fact (Suc k) * (n choose Suc k))" .
  then show ?case using Suc.IH [of "acc * n" "n - 1"]
    by (subst falling.simps) simp
qed

lemma first_overflow_table:
  "list_all (\<lambda>(m, ns, t). falling 1 (ns - 1) (Suc m) < 2 ^ 64 * fact (Suc m)
       \<and> 2 ^ 64 \<le> t * (ns - m) \<and> t * fact (Suc m) \<le> falling 1 ns m) first_overflow"
  by (simp add: first_overflow_def falling.simps fact_numeral)

lemma central_68: "(2::nat) ^ 64 \<le> 68 choose 34"
proof -
  have "2 ^ 64 * fact 34 \<le> falling 1 68 34" by (simp add: falling.simps fact_numeral)
  then have "fact 34 * 2 ^ 64 \<le> fact 34 * (68 choose 34)"
    by (simp only: falling_choose mult_1 mult.commute [of "2 ^ 64"])
  then show ?thesis by (simp only: mult_le_cancel1 fact_gt_zero simp_thms)
qed


lemma first_overflow_keys: "map fst first_overflow = [1..<34]"
  by (simp add: first_overflow_def upt_conv_Cons)

lemma first_overflow_entry:
  assumes "1 \<le> m" "m \<le> 33"
  shows "\<exists>ns t. (m, ns, t) \<in> set first_overflow"
proof -
  have "m \<in> set [1..<34]" using assms by simp
  then have "m \<in> fst ` set first_overflow"
    by (simp only: first_overflow_keys [symmetric] set_map)
  then show ?thesis by force
qed

lemma crossing_detected:
  assumes "n0 < 2 ^ 64" "Suc m \<le> n0" "n0 choose m < 2 ^ 64" "2 ^ 64 \<le> n0 choose Suc m"
  shows "2 ^ 64 \<le> (n0 choose m) div Suc m * (n0 - m)"
proof -
  have m1: "1 \<le> m"
  proof (rule ccontr)
    assume "\<not> 1 \<le> m"
    then have "m = 0" by simp
    then show False using assms(1,4) by simp
  qed
  have half: "m < n0 div 2"
  proof (rule ccontr)
    assume "\<not> m < n0 div 2"
    then have "n0 div 2 \<le> m" by simp
    then have "n0 choose Suc m \<le> n0 choose m"
      using binomial_antimono [of m "Suc m" n0] assms(2) by simp
    then show False using assms(3,4) by simp
  qed
  then have twice: "2 * m \<le> n0" by simp
  have m33: "m \<le> 33"
  proof (rule ccontr)
    assume "\<not> m \<le> 33"
    then have "34 \<le> m" by simp
    then have "68 \<le> n0" using twice by simp
    then have "68 choose 34 \<le> n0 choose 34" by (rule binomial_right_mono)
    also have "\<dots> \<le> n0 choose m" using \<open>34 \<le> m\<close> twice by (rule binomial_mono)
    finally show False using central_68 assms(3) by simp
  qed
  from first_overflow_entry [OF m1 m33] obtain ns t where "(m, ns, t) \<in> set first_overflow"
    by blast
  with first_overflow_table have
    f1: "falling 1 (ns - 1) (Suc m) < 2 ^ 64 * fact (Suc m)" and
    f2: "2 ^ 64 \<le> t * (ns - m)" and
    f3: "t * fact (Suc m) \<le> falling 1 ns m"
    by (auto simp: list_all_iff)
  have "fact (Suc m) * (ns - 1 choose Suc m) < fact (Suc m) * 2 ^ 64"
    using f1 by (simp only: falling_choose mult_1 mult.commute [of "2 ^ 64"])
  then have "ns - 1 choose Suc m < 2 ^ 64"
    by (simp only: mult_less_cancel1)
  have ns: "ns \<le> n0"
  proof (rule ccontr)
    assume "\<not> ns \<le> n0"
    then have "n0 \<le> ns - 1" by simp
    then have "n0 choose Suc m \<le> ns - 1 choose Suc m" by (rule binomial_right_mono)
    then show False using \<open>ns - 1 choose Suc m < 2 ^ 64\<close> assms(4) by simp
  qed
  have "fact m * (t * Suc m) \<le> fact m * (ns choose m)"
    using f3 by (simp only: falling_choose mult_1 fact_Suc of_nat_id ac_simps)
  then have "t * Suc m \<le> ns choose m"
    by (simp only: mult_le_cancel1 fact_gt_zero simp_thms)
  then have "t \<le> (ns choose m) div Suc m"
    by (simp add: less_eq_div_iff_mult_less_eq)
  also have "\<dots> \<le> (n0 choose m) div Suc m"
    by (intro div_le_mono binomial_right_mono ns)
  finally have "t * (ns - m) \<le> (n0 choose m) div Suc m * (n0 - m)"
    using ns by (intro mult_le_mono) simp_all
  then show ?thesis using f2 by simp
qed

lemma bin_loop_cases:
  fixes n k :: "64 word"
  assumes kn: "unat k \<le> unat n"
  shows "(\<forall>j\<le>unat k. unat n choose j < 2 ^ 64) \<and>
           bin_loop 1 1 n k = Some (Result (of_nat (unat n choose unat k)))
       \<or> (\<exists>j\<le>unat k. 2 ^ 64 \<le> unat n choose j) \<and> bin_loop 1 1 n k = Some Overflow"
proof (cases "\<forall>j\<le>unat k. unat n choose j < 2 ^ 64")
  case True
  then show ?thesis using bin_loop_exact [OF kn] by simp
next
  case False
  then obtain j0 where j0: "j0 \<le> unat k" "2 ^ 64 \<le> unat n choose j0"
    by (auto simp: not_less)
  define j where "j = (LEAST j. 2 ^ 64 \<le> unat n choose j)"
  have cross: "2 ^ 64 \<le> unat n choose j" unfolding j_def using j0(2) by (rule LeastI)
  have jk: "j \<le> unat k" using Least_le [of "\<lambda>j. 2 ^ 64 \<le> unat n choose j", OF j0(2)] j0(1)
    unfolding j_def by simp
  have below: "\<And>i. i < j \<Longrightarrow> unat n choose i < 2 ^ 64"
    using not_less_Least [of _ "\<lambda>j. 2 ^ 64 \<le> unat n choose j"] unfolding j_def
    by (simp add: not_le)
  have "j \<noteq> 0" using cross by (cases "j = 0") simp_all
  then obtain m where m: "j = Suc m" by (cases j) simp_all
  have lt: "unat n < 2 ^ 64" using unsigned_less [of n] by simp
  have fits: "\<forall>i\<le>m. unat n choose i < 2 ^ 64" using below m by simp
  have "2 ^ 64 \<le> (unat n choose m) div Suc m * (unat n - m)"
    using crossing_detected [OF lt _ _ cross [unfolded m]] jk kn fits m by simp
  from bin_loop_crossing [OF jk [unfolded m] kn fits this] cross jk
  show ?thesis by blast
qed


lemma bin_of_loop:
  "bin_loop 1 1 n k = Some Overflow \<Longrightarrow> bin n k = Some 0"
  "bin_loop 1 1 n k = Some (Result c) \<Longrightarrow> bin n k = Some c"
  by (simp_all add: bin_def)

text \<open>
  Claim C7. For \<open>k \<le> n\<close>: when neither \<^verbatim>\<open>bin(n, k)\<close> nor \<^verbatim>\<open>bin(n, n - k)\<close> leaves through
  the overflow \<^verbatim>\<open>return\<close>, both return the binomial coefficient, hence the same value; and
  when the coefficient itself needs more than 64 bits, \<^verbatim>\<open>bin(n, k)\<close> leaves through the
  overflow \<^verbatim>\<open>return\<close> and its value is the sentinel 0.
\<close>

theorem bin_symmetric_and_sentinel:
  fixes n k :: "64 word"
  shows "(k \<le> n \<and> bin_loop 1 1 n k \<noteq> Some Overflow \<and> bin_loop 1 1 n (n - k) \<noteq> Some Overflow
            \<longrightarrow> bin n k = bin n (n - k) \<and> bin n k = Some (of_nat (unat n choose unat k)))
       \<and> (k \<le> n \<and> 2 ^ 64 \<le> unat n choose unat k
            \<longrightarrow> bin_loop 1 1 n k = Some Overflow \<and> bin n k = Some 0)"
proof (intro conjI impI; elim conjE)
  assume kn: "k \<le> n" and a: "bin_loop 1 1 n k \<noteq> Some Overflow"
    and b: "bin_loop 1 1 n (n - k) \<noteq> Some Overflow"
  have le: "unat k \<le> unat n" using kn by (simp add: word_le_nat_alt)
  have sub: "unat (n - k) = unat n - unat k" using kn by (rule unat_sub)
  then have le': "unat (n - k) \<le> unat n" by simp
  have "bin_loop 1 1 n k = Some (Result (of_nat (unat n choose unat k)))"
    using bin_loop_cases [OF le] a by blast
  then have 1: "bin n k = Some (of_nat (unat n choose unat k))" by (rule bin_of_loop)
  have "bin_loop 1 1 n (n - k) = Some (Result (of_nat (unat n choose unat (n - k))))"
    using bin_loop_cases [OF le'] b by blast
  then have "bin n (n - k) = Some (of_nat (unat n choose (unat n - unat k)))"
    using sub by (simp add: bin_of_loop)
  then have 2: "bin n (n - k) = Some (of_nat (unat n choose unat k))"
    using binomial_symmetric [OF le] by simp
  show "bin n k = bin n (n - k)" using 1 2 by simp
  show "bin n k = Some (of_nat (unat n choose unat k))" using 1 .
next
  assume kn: "k \<le> n" and big: "2 ^ 64 \<le> unat n choose unat k"
  have le: "unat k \<le> unat n" using kn by (simp add: word_le_nat_alt)
  have "\<not> (\<forall>j\<le>unat k. unat n choose j < 2 ^ 64)" using big by (auto simp: not_less)
  then show "bin_loop 1 1 n k = Some Overflow" using bin_loop_cases [OF le] by blast
  then show "bin n k = Some 0" by (rule bin_of_loop)
qed

text \<open>The witness: \<open>C(10, 3) = C(10, 7) = 120\<close>, and \<open>C(1000, 500)\<close> gives the sentinel.\<close>

lemma choose_1000: "(2::nat) ^ 64 \<le> 1000 choose 500"
proof -
  have "2 ^ 64 * fact 8 \<le> falling 1 1000 8" by (simp add: falling.simps fact_numeral)
  then have "fact 8 * 2 ^ 64 \<le> fact 8 * (1000 choose 8)"
    by (simp only: falling_choose mult_1 mult.commute [of "2 ^ 64"])
  then have "(2::nat) ^ 64 \<le> 1000 choose 8"
    by (simp only: mult_le_cancel1 fact_gt_zero simp_thms)
  also have "\<dots> \<le> 1000 choose 500" by (rule binomial_mono) simp_all
  finally show ?thesis .
qed

theorem bin_symmetric_and_sentinel_witness:
  "bin 10 3 = bin 10 7 \<and> bin 10 3 = Some 120 \<and> bin_loop 1 1 1000 500 = Some Overflow \<and> bin 1000 500 = Some 0"
proof -
  have a: "bin_loop 1 1 10 3 \<noteq> Some Overflow" by (simp add: bin_loop.simps ULONG_MAX_def)
  have b: "bin_loop 1 1 10 (10 - 3) \<noteq> Some Overflow" by (simp add: bin_loop.simps ULONG_MAX_def)
  have c: "(3::64 word) \<le> 10" by simp
  have d: "(500::64 word) \<le> 1000" by simp
  have e: "2 ^ 64 \<le> unat (1000::64 word) choose unat (500::64 word)" using choose_1000 by simp
  have "(10::nat) choose 3 = 120" by (simp add: numeral_eq_Suc)
  then have f: "(of_nat (unat (10::64 word) choose unat (3::64 word)) :: 64 word) = 120"
    by simp
  have g: "(10::64 word) - 3 = 7" by simp
  have "bin 10 3 = bin 10 (10 - 3) \<and> bin 10 3 = Some (of_nat (unat (10::64 word) choose unat (3::64 word)))"
    using bin_symmetric_and_sentinel [of 3 10] a b c by blast
  then have 1: "bin 10 3 = bin 10 7 \<and> bin 10 3 = Some 120" unfolding f g .
  have 2: "bin_loop 1 1 1000 500 = Some Overflow \<and> bin 1000 500 = Some 0"
    using bin_symmetric_and_sentinel [of 500 1000] d e by blast
  show ?thesis using 1 2 by blast
qed

section \<open>The uniform denominator\<close>

lemma bin_exact:
  fixes n k :: "64 word"
  assumes "unat k \<le> unat n" "\<forall>j\<le>unat k. unat n choose j < 2 ^ 64"
  shows "\<exists>c. bin n k = Some c \<and> unat c = unat n choose unat k"
proof -
  have "unat n choose unat k < 2 ^ 64" using assms(2) by simp
  then have "unat (of_nat (unat n choose unat k) :: 64 word) = unat n choose unat k"
    by (simp add: unat_of_nat)
  then show ?thesis using bin_loop_exact [OF assms] by (simp add: bin_def)
qed

lemma unat_word_of_int_nat:
  assumes "0 \<le> x" "x < 2 ^ 64"
  shows "unat (word_of_int x :: 64 word) = nat x"
proof -
  have "uint (word_of_int x :: 64 word) = x mod 2 ^ 64"
    by (simp add: uint_word_of_int)
  also have "\<dots> = x" using assms by (rule mod_pos_pos_trivial)
  finally show ?thesis by (simp only: unat_eq_nat_uint)
qed

lemma get_denominator_exact:
  assumes g: "1 \<le> d" "d \<le> L - N + 1" and N: "1 \<le> N" and L: "L < 2 ^ 64"
    and fits: "\<forall>j\<le>nat N. nat L choose j < 2 ^ 64"
  shows "get_denominator d N L = Some (real (nat (L - d) choose nat (N - 1)) / real (nat L choose nat N))"
proof -
  define n1 k1 n2 k2 :: "64 word" where "n1 = word_of_int (L - d)" and "k1 = word_of_int (N - 1)"
    and "n2 = word_of_int L" and "k2 = word_of_int N"
  have NL: "N \<le> L" using g by simp
  have uL: "unat n2 = nat L" unfolding n2_def by (rule unat_word_of_int_nat) (use NL N L in simp_all)
  have uN: "unat k2 = nat N" unfolding k2_def by (rule unat_word_of_int_nat) (use NL N L in simp_all)
  have uLd: "unat n1 = nat (L - d)" unfolding n1_def
    by (rule unat_word_of_int_nat) (use g N L in simp_all)
  have uN1: "unat k1 = nat (N - 1)" unfolding k1_def
    by (rule unat_word_of_int_nat) (use NL N L in simp_all)
  have fits': "\<forall>j\<le>nat (N - 1). nat (L - d) choose j < 2 ^ 64"
  proof (intro allI impI)
    fix j assume "j \<le> nat (N - 1)"
    then have "j \<le> nat N" by simp
    then have "nat L choose j < 2 ^ 64" using fits by simp
    moreover have "nat (L - d) choose j \<le> nat L choose j"
      by (rule binomial_right_mono) (use g in simp)
    ultimately show "nat (L - d) choose j < 2 ^ 64" by (rule le_less_trans [rotated])
  qed
  have "unat k1 \<le> unat n1" unfolding uLd uN1 using g by simp
  from bin_exact [OF this] fits' obtain a where a: "bin n1 k1 = Some a"
      "unat a = nat (L - d) choose nat (N - 1)"
    unfolding uLd uN1 by blast
  have "unat k2 \<le> unat n2" unfolding uL uN using NL by simp
  from bin_exact [OF this] fits obtain b where b: "bin n2 k2 = Some b" "unat b = nat L choose nat N"
    unfolding uL uN by blast
  have "nat N \<le> nat L" using NL by simp
  then have pos: "0 < nat L choose nat N" by (rule zero_less_binomial)
  then have nz: "real (nat L choose nat N) \<noteq> 0" by (metis of_nat_0_less_iff less_irrefl)
  have "get_denominator d N L = do { a \<leftarrow> bin n1 k1; b \<leftarrow> bin n2 k2; fdiv (real (unat a)) (real (unat b)) }"
    unfolding get_denominator_def n1_def k1_def n2_def k2_def by (simp only: g simp_thms if_True)
  also have "\<dots> = fdiv (real (nat (L - d) choose nat (N - 1))) (real (nat L choose nat N))"
    by (simp only: a(1) b(1) bind.bind_lunit) (simp only: a(2) b(2))
  also have "\<dots> = Some (real (nat (L - d) choose nat (N - 1)) / real (nat L choose nat N))"
    unfolding fdiv_def using nz by (rule if_not_P)
  finally show ?thesis .
qed

lemma get_denominator_sentinel:
  assumes g: "1 \<le> d" "d \<le> L - N + 1" and "bin (word_of_int L) (word_of_int N) = Some 0"
  shows "get_denominator d N L = None"
proof -
  have "get_denominator d N L = do { a \<leftarrow> bin (word_of_int (L - d)) (word_of_int (N - 1));
      b \<leftarrow> bin (word_of_int L) (word_of_int N); fdiv (real (unat a)) (real (unat b)) }"
    unfolding get_denominator_def by (simp only: g simp_thms if_True)
  then show ?thesis unfolding assms(3)
    by (cases "bin (word_of_int (L - d)) (word_of_int (N - 1))") (simp_all add: fdiv_def)
qed

text \<open>
  Claim C4, as the code has it. Outside of \<open>1 \<le> d \<le> L - N + 1\<close> the result is the constant
  0.0001. Inside, when no coefficient \<open>C(L, j)\<close> with \<open>j \<le> N\<close> needs more than 64 bits, it is
  \<open>C(L - d, N - 1) / C(L, N)\<close>. Inside, when \<^verbatim>\<open>bin(L, N)\<close> returns its sentinel 0, the code
  divides by it: the result is not a finite number, and not the constant 0.0001.
\<close>

theorem get_denominator_cases:
  "(\<not> (1 \<le> d \<and> d \<le> L - N + 1) \<longrightarrow> get_denominator d N L = Some (1 / 10000))
   \<and> (1 \<le> d \<and> d \<le> L - N + 1 \<and> 1 \<le> N \<and> L < 2 ^ 64 \<and> (\<forall>j\<le>nat N. nat L choose j < 2 ^ 64)
        \<longrightarrow> get_denominator d N L
            = Some (real (nat (L - d) choose nat (N - 1)) / real (nat L choose nat N)))
   \<and> (1 \<le> d \<and> d \<le> L - N + 1 \<and> bin (word_of_int L) (word_of_int N) = Some 0
        \<longrightarrow> get_denominator d N L = None)"
proof (intro conjI impI)
  assume "\<not> (1 \<le> d \<and> d \<le> L - N + 1)"
  then show "get_denominator d N L = Some (1 / 10000)"
    unfolding get_denominator_def by (simp only: if_False) simp
next
  assume "1 \<le> d \<and> d \<le> L - N + 1 \<and> 1 \<le> N \<and> L < 2 ^ 64 \<and> (\<forall>j\<le>nat N. nat L choose j < 2 ^ 64)"
  then show "get_denominator d N L
      = Some (real (nat (L - d) choose nat (N - 1)) / real (nat L choose nat N))"
    using get_denominator_exact by blast
next
  assume "1 \<le> d \<and> d \<le> L - N + 1 \<and> bin (word_of_int L) (word_of_int N) = Some 0"
  then show "get_denominator d N L = None" using get_denominator_sentinel by blast
qed

text \<open>
  Claim C4 as stated fails for three recognizers on an effective length of 4801281:
  \<^verbatim>\<open>bin(4801281, 3)\<close> returns the sentinel and the quotient is not 0.0001.
\<close>

theorem get_denominator_sentinel_counterexample:
  "bin (word_of_int 4801281) (word_of_int 3) = Some 0 \<and> get_denominator 1 3 4801281 = None
   \<and> get_denominator 1 3 4801281 \<noteq> Some 0.0001"
proof -
  have "bin_loop 1 1 4801281 3 = Some Overflow" by (simp add: bin_loop.simps ULONG_MAX_def)
  then have 1: "bin (word_of_int 4801281) (word_of_int 3) = Some 0" by (simp add: bin_def)
  have "get_denominator 1 3 4801281 = None"
    by (rule get_denominator_sentinel [OF _ _ 1]) simp_all
  then show ?thesis using 1 by simp
qed

theorem get_denominator_cases_witness:
  "get_denominator 0 2 5 = Some (1 / 10000)
   \<and> get_denominator 1 2 3 = Some (2 / 3)
   \<and> get_denominator 1 3 4801281 = None"
proof -
  have "bin_loop 1 1 4801281 3 = Some Overflow" by (simp add: bin_loop.simps ULONG_MAX_def)
  then have s: "bin (word_of_int 4801281) (word_of_int 3) = Some 0" by (simp add: bin_def)
  have fits: "\<forall>j\<le>nat 2. nat 3 choose j < 2 ^ 64"
  proof (intro allI impI)
    fix j :: nat
    have "nat 3 choose j \<le> 2 ^ nat 3" by (rule binomial_le_pow2)
    then show "nat 3 choose j < 2 ^ 64" by simp
  qed
  have c: "real (nat (3 - 1) choose nat (2 - 1)) / real (nat 3 choose nat 2) = 2 / 3"
    by (simp add: numeral_eq_Suc)
  have 1: "get_denominator 0 2 5 = Some (1 / 10000)"
    using get_denominator_cases [of 0 5 2] by simp
  have "get_denominator 1 2 3 = Some (real (nat (3 - 1) choose nat (2 - 1)) / real (nat 3 choose nat 2))"
    using get_denominator_cases [of 1 3 2] fits by simp
  then have 2: "get_denominator 1 2 3 = Some (2 / 3)" unfolding c .
  have 3: "get_denominator 1 3 4801281 = None"
    using get_denominator_cases [of 1 4801281 3] s by simp
  show ?thesis using 1 2 3 by blast
qed

section \<open>Loops\<close>

lemma foldM_append:
  "foldM f (xs @ ys) s = (case foldM f xs s of None \<Rightarrow> None | Some s' \<Rightarrow> foldM f ys s')"
  by (induction xs arbitrary: s) (auto split: option.splits)

lemma foldM_upto_rule:
  assumes init: "P a s" and range: "a \<le> b + 1"
    and step: "\<And>x s. a \<le> x \<Longrightarrow> x \<le> b \<Longrightarrow> P x s \<Longrightarrow> \<exists>s'. f x s = Some s' \<and> P (x + 1) s'"
  shows "\<exists>s'. foldM f [a..b] s = Some s' \<and> P (b + 1) s'"
proof -
  have "\<exists>s'. foldM f [a..a + int n - 1] s = Some s' \<and> P (a + int n) s'"
    if "a + int n \<le> b + 1" for n
    using that
  proof (induction n)
    case 0
    then show ?case using init by simp
  next
    case (Suc n)
    then obtain s1 where s1: "foldM f [a..a + int n - 1] s = Some s1" "P (a + int n) s1"
      by auto
    have "a \<le> a + int n" "a + int n \<le> b" using Suc.prems by simp_all
    from step [OF this s1(2)] obtain s2 where s2: "f (a + int n) s1 = Some s2" "P (a + int n + 1) s2"
      by auto
    have e1: "a + int (Suc n) - 1 = a + int n" and e2: "a + int (Suc n) = a + int n + 1"
      by simp_all
    have l: "[a..a + int n] = [a..a + int n - 1] @ [a + int n]"
      using upto_rec2 [of a "a + int n"] by simp
    have "foldM f [a..a + int n] s = Some s2"
      by (subst l) (simp add: foldM_append s1 s2)
    then show ?case using s2(2) by (simp del: of_nat_Suc add: e1 e2)
  qed
  from this [of "nat (b + 1 - a)"] range show ?thesis by simp
qed

lemma foldM_downto_rule:
  assumes init: "P b s" and range: "a \<le> b + 1"
    and step: "\<And>x s. a \<le> x \<Longrightarrow> x \<le> b \<Longrightarrow> P x s \<Longrightarrow> \<exists>s'. f x s = Some s' \<and> P (x - 1) s'"
  shows "\<exists>s'. foldM f (rev [a..b]) s = Some s' \<and> P (a - 1) s'"
proof -
  have "\<exists>s'. foldM f (rev [b - int n + 1..b]) s = Some s' \<and> P (b - int n) s'"
    if "a \<le> b - int n + 1" for n
    using that
  proof (induction n)
    case 0
    then show ?case using init by simp
  next
    case (Suc n)
    then obtain s1 where s1: "foldM f (rev [b - int n + 1..b]) s = Some s1" "P (b - int n) s1"
      by auto
    have "a \<le> b - int n" "b - int n \<le> b" using Suc.prems by simp_all
    from step [OF this s1(2)] obtain s2 where s2: "f (b - int n) s1 = Some s2" "P (b - int n - 1) s2"
      by auto
    have e1: "b - int (Suc n) + 1 = b - int n" and e2: "b - int (Suc n) = b - int n - 1"
      by simp_all
    have l: "[b - int n..b] = (b - int n) # [b - int n + 1..b]"
      using upto_rec1 [of "b - int n" b] by simp
    have "foldM f (rev [b - int n..b]) s = Some s2"
      by (subst l) (simp add: foldM_append s1 s2)
    then show ?case using s2(2) by (simp del: of_nat_Suc add: e1 e2)
  qed
  from this [of "nat (b + 1 - a)"] range show ?thesis by simp
qed


section \<open>Offsets and the score matrix\<close>

lemma rd_Some: "0 \<le> i \<Longrightarrow> i < int (length xs) \<Longrightarrow> rd xs i = Some (xs ! nat i)"
  by (simp add: rd_def)

lemma wr_Some: "0 \<le> i \<Longrightarrow> i < int (length xs) \<Longrightarrow> wr xs i v = Some (xs[nat i := v])"
  by (simp add: wr_def)

lemma get_forward_offset_eq:
  assumes "0 \<le> i" "i \<le> int (length cols)"
  shows "get_forward_offset i cols N = Some (sum_list (take (nat i) cols))"
proof -
  let ?f = "\<lambda>i offset. do { c \<leftarrow> rd cols i; Some (offset + c) }"
  have "\<exists>s'. foldM ?f [0..i - 1] 0 = Some s' \<and> s' = sum_list (take (nat (i - 1 + 1)) cols)"
  proof (rule foldM_upto_rule [where P = "\<lambda>x s. s = sum_list (take (nat x) cols)"])
    show "0 = sum_list (take (nat 0) cols)" by simp
    show "0 \<le> i - 1 + 1" using assms by simp
  next
    fix x s assume x: "0 \<le> x" "x \<le> i - 1" and s: "s = sum_list (take (nat x) cols)"
    have lt: "nat x < length cols" using x assms by simp
    have "nat (x + 1) = Suc (nat x)" using x by simp
    then have "sum_list (take (nat (x + 1)) cols) = s + cols ! nat x"
      using lt s by (simp add: take_Suc_conv_app_nth)
    moreover have "rd cols x = Some (cols ! nat x)" using x lt by (simp add: rd_def)
    ultimately show "\<exists>s'. ?f x s = Some s' \<and> s' = sum_list (take (nat (x + 1)) cols)"
      by simp
  qed
  then show ?thesis by (simp add: get_forward_offset_def)
qed

lemma get_reverse_offset_eq:
  assumes "0 \<le> i" "i \<le> N" "N = int (length cols)"
  shows "get_reverse_offset i cols N = Some (sum_list (drop (nat i) cols) - 1)"
proof -
  let ?f = "\<lambda>i offset. do { c \<leftarrow> rd cols i; Some (offset + c) }"
  have "\<exists>s'. foldM ?f (rev [i..N - 1]) 0 = Some s' \<and> s' = sum_list (drop (nat (i - 1 + 1)) cols)"
  proof (rule foldM_downto_rule [where P = "\<lambda>x s. s = sum_list (drop (nat (x + 1)) cols)"])
    show "0 = sum_list (drop (nat (N - 1 + 1)) cols)" using assms by simp
    show "i \<le> N - 1 + 1" using assms by simp
  next
    fix x s assume x: "i \<le> x" "x \<le> N - 1" and s: "s = sum_list (drop (nat (x + 1)) cols)"
    have lt: "nat x < length cols" using x assms by simp
    have "nat (x + 1) = Suc (nat x)" using x assms by simp
    have "sum_list (drop (nat x) cols) = sum_list (cols ! nat x # drop (Suc (nat x)) cols)"
      by (simp only: Cons_nth_drop_Suc [OF lt])
    then have "sum_list (drop (nat (x - 1 + 1)) cols) = s + cols ! nat x"
      using s \<open>nat (x + 1) = Suc (nat x)\<close> by simp
    moreover have "rd cols x = Some (cols ! nat x)" using x lt assms by (simp add: rd_def)
    ultimately show "\<exists>s'. ?f x s = Some s' \<and> s' = sum_list (drop (nat (x - 1 + 1)) cols)"
      by simp
  qed
  then show ?thesis by (simp add: get_reverse_offset_def)
qed


lemma add_base_eq:
  assumes "0 \<le> j" "0 \<le> k" "j + k < int (length seq)" "0 \<le> fo"
    "4 * (fo + k) + 3 < int (length pssm)"
  shows "add_base seq pssm fo j k score =
     Some (score + (case base_column (seq ! (nat j + nat k)) of None \<Rightarrow> 0
                    | Some c \<Rightarrow> pssm ! (4 * (nat fo + nat k) + c)))"
proof -
  have b: "rd seq (j + k) = Some (seq ! (nat j + nat k))"
    using assms by (simp add: rd_def nat_add_distrib)
  have ix: "nat ((fo + k) * 4 + c) = 4 * (nat fo + nat k) + nat c" if "0 \<le> c" for c
    using assms that by (simp add: nat_add_distrib nat_mult_distrib)
  have p: "rd pssm ((fo + k) * 4 + c) = Some (pssm ! (4 * (nat fo + nat k) + nat c))"
    if "0 \<le> c" "c \<le> 3" for c
    using assms that ix [OF that(1)] by (simp add: rd_def)
  show ?thesis
    unfolding add_base_def b
    using p [of 0] p [of 1] p [of 2] p [of 3]
    by (simp add: base_column_def)
qed

lemma score_loop:
  assumes "0 \<le> j" "0 \<le> w" "j + w \<le> int (length seq)" "0 \<le> fo"
    "4 * (fo + w) \<le> int (length pssm)"
  shows "foldM (add_base seq pssm fo j) [0..w - 1] 0 = Some (position_score seq pssm fo w j)"
proof -
  let ?t = "\<lambda>k. case base_column (seq ! (nat j + k)) of None \<Rightarrow> 0
                    | Some c \<Rightarrow> pssm ! (4 * (nat fo + k) + c)"
  have "\<exists>s'. foldM (add_base seq pssm fo j) [0..w - 1] 0 = Some s'
          \<and> s' = (\<Sum>k = 0..<nat (w - 1 + 1). ?t k)"
  proof (rule foldM_upto_rule [where P = "\<lambda>x s. s = (\<Sum>k = 0..<nat x. ?t k)"])
    show "0 = (\<Sum>k = 0..<nat 0. ?t k)" by simp
    show "0 \<le> w - 1 + 1" using assms by simp
  next
    fix x :: int and s :: real
    assume x: "0 \<le> x" "x \<le> w - 1" and s: "s = (\<Sum>k = 0..<nat x. ?t k)"
    have "add_base seq pssm fo j x s = Some (s + ?t (nat x))"
      by (rule add_base_eq) (use x assms in simp_all)
    moreover have "nat (x + 1) = Suc (nat x)" using x by simp
    ultimately show "\<exists>s'. add_base seq pssm fo j x s = Some s' \<and> s' = (\<Sum>k = 0..<nat (x + 1). ?t k)"
      using s by simp
  qed
  then show ?thesis by (simp add: position_score_def)
qed


lemma row_loop:
  fixes sm :: "real list"
  assumes i: "0 \<le> i" "i < int (length cols)" and w: "0 \<le> cols ! nat i"
    and fo: "0 \<le> fo" and seq: "fo + A - 1 + cols ! nat i \<le> int (length seq)"
    and pssm: "4 * (fo + cols ! nat i) \<le> int (length pssm)"
    and block: "0 \<le> i * A" "i * A + A \<le> int (length sm)"
  shows "\<exists>sm'. foldM (\<lambda>j sm. do {
                    w \<leftarrow> rd cols i;
                    score \<leftarrow> foldM (add_base seq pssm fo j) [0..w - 1] 0;
                    wr sm (i * A + j - fo) score
                  }) [fo..fo + A - 1] sm = Some sm'
          \<and> length sm' = length sm
          \<and> (\<forall>p. 0 \<le> p \<and> p < A \<longrightarrow>
                 sm' ! nat (i * A + p) = position_score seq pssm fo (cols ! nat i) (fo + p))
          \<and> (\<forall>n. n < length sm \<and> (int n < i * A \<or> i * A + A \<le> int n) \<longrightarrow> sm' ! n = sm ! n)"
    (is "\<exists>sm'. foldM ?body _ _ = _ \<and> _")
proof (cases "0 \<le> A")
  case False
  then have "[fo..fo + A - 1] = []" by simp
  then show ?thesis using False by simp
next
  case True
  let ?ps = "\<lambda>j. position_score seq pssm fo (cols ! nat i) j"
  let ?P = "\<lambda>x sm'. length sm' = length sm
      \<and> (\<forall>p. 0 \<le> p \<and> p < x - fo \<longrightarrow> sm' ! nat (i * A + p) = ?ps (fo + p))
      \<and> (\<forall>n. n < length sm \<and> (int n < i * A \<or> i * A + (x - fo) \<le> int n) \<longrightarrow> sm' ! n = sm ! n)"
  have "\<exists>sm'. foldM ?body [fo..fo + A - 1] sm = Some sm' \<and> ?P (fo + A - 1 + 1) sm'"
  proof (rule foldM_upto_rule [where P = ?P])
    show "?P fo sm" by simp
    show "fo \<le> fo + A - 1 + 1" using True by simp
  next
    fix x s assume x: "fo \<le> x" "x \<le> fo + A - 1" and inv: "?P x s"
    have r: "rd cols i = Some (cols ! nat i)" using i by (simp add: rd_def)
    have sc: "foldM (add_base seq pssm fo x) [0..cols ! nat i - 1] 0 = Some (?ps x)"
      by (rule score_loop) (use x w fo seq pssm in simp_all)
    have ix: "0 \<le> i * A + x - fo" "i * A + x - fo < int (length s)"
      using x block inv by simp_all
    have body: "?body x s = Some (s[nat (i * A + x - fo) := ?ps x])"
      using ix by (simp add: r sc wr_def)
    have "?P (x + 1) (s[nat (i * A + x - fo) := ?ps x])"
    proof (intro conjI allI impI)
      show "length (s[nat (i * A + x - fo) := ?ps x]) = length sm" using inv by simp
    next
      fix p assume p: "0 \<le> p \<and> p < x + 1 - fo"
      show "s[nat (i * A + x - fo) := ?ps x] ! nat (i * A + p) = ?ps (fo + p)"
      proof (cases "p = x - fo")
        case True
        then have "nat (i * A + p) = nat (i * A + x - fo)" and "fo + p = x"
          by (simp_all add: algebra_simps)
        moreover have "nat (i * A + x - fo) < length s" using ix by simp
        ultimately show ?thesis by simp
      next
        case False
        have "0 \<le> i * A + p" "0 \<le> i * A + x - fo" "i * A + p \<noteq> i * A + x - fo"
          using p block x False by simp_all
        then have "nat (i * A + p) \<noteq> nat (i * A + x - fo)" by (simp only: nat_eq_iff) simp
        then show ?thesis using inv p False by simp
      qed
    next
      fix n assume n: "n < length sm \<and> (int n < i * A \<or> i * A + (x + 1 - fo) \<le> int n)"
      have "int (nat (i * A + x - fo)) = i * A + x - fo" using ix by simp
      then have "int n \<noteq> int (nat (i * A + x - fo))" using n x by auto
      then have "n \<noteq> nat (i * A + x - fo)" by metis
      then show "s[nat (i * A + x - fo) := ?ps x] ! n = sm ! n" using inv n by auto
    qed
    then show "\<exists>s'. ?body x s = Some s' \<and> ?P (x + 1) s'" using body by blast
  qed
  then show ?thesis by simp
qed


lemma sum_list_split:
  fixes cols :: "int list"
  shows "sum_list (take n cols) + sum_list (drop n cols) = sum_list cols"
  by (metis append_take_drop_id sum_list_append)

lemma sum_list_take_nonneg:
  fixes cols :: "int list"
  assumes "\<forall>c\<in>set cols. 0 \<le> c"
  shows "0 \<le> sum_list (take n cols)" "0 \<le> sum_list (drop n cols)"
  using assms by (auto intro!: sum_list_nonneg dest: in_set_takeD in_set_dropD)

lemma sum_list_drop_nth:
  fixes cols :: "int list"
  assumes "n < length cols"
  shows "sum_list (drop n cols) = cols ! n + sum_list (drop (Suc n) cols)"
  by (simp flip: Cons_nth_drop_Suc [OF assms])

lemma block_bound:
  fixes i N A :: int
  assumes "0 \<le> i" "i < N" "0 \<le> A"
  shows "0 \<le> i * A" "i * A + A \<le> N * A"
proof -
  show "0 \<le> i * A" using assms by simp
  have "(i + 1) * A \<le> N * A" using assms by (intro mult_right_mono) simp_all
  then show "i * A + A \<le> N * A" by (simp add: algebra_simps)
qed

lemma fill_matrix_cells:
  fixes score_matrix :: "real list"
  assumes nonneg: "\<forall>c\<in>set cols. 0 \<le> c" and N: "num_rec = int (length cols)"
    and L: "len_seq = int (length seq)" and pssm: "4 * sum_list cols \<le> int (length pssm)"
    and A: "num_alignments = len_seq - sum_list cols + 1"
    and size: "num_rec * num_alignments \<le> int (length score_matrix)"
  shows "\<exists>sm. fill_matrix seq len_seq pssm cols num_rec score_matrix num_alignments = Some sm
          \<and> length sm = length score_matrix
          \<and> (\<forall>i p. 0 \<le> i \<and> i < num_rec \<and> 0 \<le> p \<and> p < num_alignments \<longrightarrow>
                 sm ! nat (i * num_alignments + p) =
                   position_score seq pssm (sum_list (take (nat i) cols)) (cols ! nat i)
                     (sum_list (take (nat i) cols) + p))"
proof -
  let ?A = num_alignments
  let ?fo = "\<lambda>i. sum_list (take (nat i) cols)"
  let ?cell = "\<lambda>i p. position_score seq pssm (?fo i) (cols ! nat i) (?fo i + p)"
  let ?row = "\<lambda>i fo j sm. do {
      w \<leftarrow> rd cols i;
      score \<leftarrow> foldM (add_base seq pssm fo j) [0..w - 1] 0;
      wr sm (i * ?A + j - fo) score }"
  let ?body = "\<lambda>i sm. do {
      forward_offset \<leftarrow> get_forward_offset i cols num_rec;
      reverse_offset \<leftarrow> get_reverse_offset i cols num_rec;
      foldM (?row i forward_offset) [forward_offset..len_seq - reverse_offset - 1] sm }"
  let ?P = "\<lambda>x sm. length sm = length score_matrix
      \<and> (\<forall>i p. 0 \<le> i \<and> i < x \<and> 0 \<le> p \<and> p < ?A \<longrightarrow> sm ! nat (i * ?A + p) = ?cell i p)"
  have "\<exists>sm. foldM ?body [0..num_rec - 1] score_matrix = Some sm \<and> ?P (num_rec - 1 + 1) sm"
  proof (rule foldM_upto_rule [where P = ?P])
    show "?P 0 score_matrix" by simp
    show "0 \<le> num_rec - 1 + 1" using N by simp
  next
    fix x s assume x: "0 \<le> x" "x \<le> num_rec - 1" and inv: "?P x s"
    have lt: "nat x < length cols" using x N by simp
    have f: "get_forward_offset x cols num_rec = Some (?fo x)"
      by (rule get_forward_offset_eq) (use x N in simp_all)
    have r: "get_reverse_offset x cols num_rec = Some (sum_list (drop (nat x) cols) - 1)"
      by (rule get_reverse_offset_eq) (use x N in simp_all)
    have last: "len_seq - (sum_list (drop (nat x) cols) - 1) - 1 = ?fo x + ?A - 1"
      using sum_list_split [of "nat x" cols] A by simp
    have w: "0 \<le> cols ! nat x" using nonneg lt by simp
    have rest: "0 \<le> sum_list (drop (Suc (nat x)) cols)" using sum_list_take_nonneg(2) [OF nonneg] .
    have wd: "cols ! nat x \<le> sum_list (drop (nat x) cols)"
      using sum_list_drop_nth [OF lt] rest by simp
    have fo0: "0 \<le> ?fo x" using sum_list_take_nonneg(1) [OF nonneg] .
    have c1: "?fo x + ?A - 1 + cols ! nat x \<le> int (length seq)"
      using sum_list_split [of "nat x" cols] A L wd by simp
    have "?fo x + cols ! nat x \<le> sum_list cols"
      using sum_list_split [of "nat x" cols] wd by simp
    then have c2: "4 * (?fo x + cols ! nat x) \<le> int (length pssm)" using pssm by simp
    show "\<exists>s'. ?body x s = Some s' \<and> ?P (x + 1) s'"
    proof (cases "0 \<le> ?A")
      case False
      then have "[?fo x..?fo x + ?A - 1] = []" by simp
      then have "?body x s = Some s" by (simp add: f r last)
      then show ?thesis using inv False by auto
    next
      case True
      have b: "0 \<le> x * ?A" "x * ?A + ?A \<le> int (length s)"
        using block_bound [of x num_rec ?A] x True size inv by simp_all
      have lt': "x < int (length cols)" using x N by simp
      from row_loop [of x cols "?fo x" ?A seq pssm s, OF x(1) lt' w fo0 c1 c2 b]
      obtain s' where s': "foldM (?row x (?fo x)) [?fo x..?fo x + ?A - 1] s = Some s'"
          "length s' = length s"
          "\<forall>p. 0 \<le> p \<and> p < ?A \<longrightarrow> s' ! nat (x * ?A + p) = ?cell x p"
          "\<forall>n. n < length s \<and> (int n < x * ?A \<or> x * ?A + ?A \<le> int n) \<longrightarrow> s' ! n = s ! n"
        by blast
      have body: "?body x s = Some s'" using s'(1) by (simp add: f r last)
      have "?P (x + 1) s'"
      proof (intro conjI allI impI)
        show "length s' = length score_matrix" using s'(2) inv by simp
      next
        fix i p assume ip: "0 \<le> i \<and> i < x + 1 \<and> 0 \<le> p \<and> p < ?A"
        show "s' ! nat (i * ?A + p) = ?cell i p"
        proof (cases "i = x")
          case True
          then show ?thesis using s'(3) ip by simp
        next
          case False
          then have ix: "0 \<le> i" "i < x" using ip by simp_all
          have bb: "0 \<le> i * ?A" "i * ?A + ?A \<le> x * ?A"
            using block_bound [of i x ?A] ix True by simp_all
          then have lt1: "int (nat (i * ?A + p)) < x * ?A" using ip by simp
          then have "int (nat (i * ?A + p)) < int (length s)" using b True by linarith
          then have "nat (i * ?A + p) < length s" by (simp only: of_nat_less_iff)
          note lt1
          moreover note \<open>nat (i * ?A + p) < length s\<close>
          ultimately have "s' ! nat (i * ?A + p) = s ! nat (i * ?A + p)" using s'(4) by blast
          then show ?thesis using inv ix ip by simp
        qed
      qed
      then show ?thesis using body by blast
    qed
  qed
  then show ?thesis by (simp add: fill_matrix_def)
qed


lemma max_index_first_max:
  assumes "1 \<le> A" "A \<le> int (length arr)"
  shows "\<exists>m. max_index arr A = Some m \<and> 0 \<le> m \<and> m < A
          \<and> (\<forall>p. 0 \<le> p \<and> p < A \<longrightarrow> arr ! nat p \<le> arr ! nat m)
          \<and> (\<forall>p. 0 \<le> p \<and> p < m \<longrightarrow> arr ! nat p < arr ! nat m)"
proof -
  let ?body = "\<lambda>i max_idx. do {
      a \<leftarrow> rd arr i;
      b \<leftarrow> rd arr max_idx;
      Some (if a > b then i else max_idx) }"
  let ?P = "\<lambda>x m. 0 \<le> m \<and> m < max x 1
      \<and> (\<forall>p. 0 \<le> p \<and> p < x \<longrightarrow> arr ! nat p \<le> arr ! nat m)
      \<and> (\<forall>p. 0 \<le> p \<and> p < m \<longrightarrow> arr ! nat p < arr ! nat m)"
  have "\<exists>m. foldM ?body [0..A - 1] 0 = Some m \<and> ?P (A - 1 + 1) m"
  proof (rule foldM_upto_rule [where P = ?P])
    show "?P 0 0" by simp
    show "0 \<le> A - 1 + 1" using assms by simp
  next
    fix x m assume x: "0 \<le> x" "x \<le> A - 1" and inv: "?P x m"
    have ra: "rd arr x = Some (arr ! nat x)" using x assms by (simp add: rd_def)
    have "m < A" using x inv by (auto simp: max_def split: if_splits)
    then have rb: "rd arr m = Some (arr ! nat m)" using inv assms by (simp add: rd_def)
    have body: "?body x m = Some (if arr ! nat x > arr ! nat m then x else m)"
      by (simp add: ra rb)
    have "?P (x + 1) (if arr ! nat x > arr ! nat m then x else m)"
    proof (cases "arr ! nat x > arr ! nat m")
      case True
      have "arr ! nat p \<le> arr ! nat x" if "0 \<le> p \<and> p < x + 1" for p
      proof (cases "p = x")
        case False
        then have "arr ! nat p \<le> arr ! nat m" using inv that by simp
        then show ?thesis using True by simp
      qed simp
      moreover have "arr ! nat p < arr ! nat x" if "0 \<le> p \<and> p < x" for p
      proof -
        have "arr ! nat p \<le> arr ! nat m" using inv that by simp
        then show ?thesis using True by simp
      qed
      ultimately show ?thesis using True x by simp
    next
      case False
      have "arr ! nat p \<le> arr ! nat m" if "0 \<le> p \<and> p < x + 1" for p
      proof (cases "p = x")
        case True
        then show ?thesis using False by simp
      next
        case False
        then show ?thesis using inv that by simp
      qed
      then show ?thesis using False inv x by auto
    qed
    then show "\<exists>s'. ?body x m = Some s' \<and> ?P (x + 1) s'" using body by simp
  qed
  then show ?thesis using assms by (auto simp: max_index_def)
qed

text \<open>
  Claim C10. On widths that are not negative, with a score block of four columns per
  row and a score matrix of \<open>num_rec\<close> rows of \<open>num_alignments\<close> cells, the scorer fills cell
  \<open>(i, p)\<close> with the sum over the rows \<open>k\<close> of recognizer \<open>i\<close> of the entry that the base at
  position \<open>p + k\<close> (counted from the recognizer's forward offset) selects: column 0 for A,
  1 for G, 2 for C, 3 for T, in either case, and nothing for any other symbol.
\<close>

theorem fill_matrix_columns:
  fixes score_matrix :: "real list"
  assumes "\<forall>c\<in>set cols. 0 \<le> c" and "num_rec = int (length cols)"
    and "len_seq = int (length seq)" and "4 * sum_list cols \<le> int (length pssm)"
    and "num_alignments = len_seq - sum_list cols + 1"
    and "num_rec * num_alignments \<le> int (length score_matrix)"
  shows "\<exists>sm. fill_matrix seq len_seq pssm cols num_rec score_matrix num_alignments = Some sm
          \<and> length sm = length score_matrix
          \<and> (\<forall>i p. 0 \<le> i \<and> i < num_rec \<and> 0 \<le> p \<and> p < num_alignments \<longrightarrow>
                 sm ! nat (i * num_alignments + p) =
                   (\<Sum>k = 0..<nat (cols ! nat i).
                      case base_column (seq ! (nat (sum_list (take (nat i) cols) + p) + k)) of
                        None \<Rightarrow> 0
                      | Some c \<Rightarrow> pssm ! (4 * (nat (sum_list (take (nat i) cols)) + k) + c)))
          \<and> base_column CHR ''A'' = Some 0 \<and> base_column CHR ''a'' = Some 0
          \<and> base_column CHR ''G'' = Some 1 \<and> base_column CHR ''g'' = Some 1
          \<and> base_column CHR ''C'' = Some 2 \<and> base_column CHR ''c'' = Some 2
          \<and> base_column CHR ''T'' = Some 3 \<and> base_column CHR ''t'' = Some 3
          \<and> (\<forall>b. b \<notin> set ''AaGgCcTt'' \<longrightarrow> base_column b = None)"
proof -
  have "base_column b = None" if "b \<notin> set ''AaGgCcTt''" for b
    using that by (simp add: base_column_def)
  then show ?thesis
    using fill_matrix_cells [OF assms] unfolding position_score_def
    by (simp add: base_column_def)
qed

theorem fill_matrix_columns_witness:
  "\<exists>sm. fill_matrix ''AgCTN'' 5 [1, 2, 3, 4, 5, 6, 7, 8] [2] 1 [0, 0, 0, 0] 4 = Some sm
      \<and> sm ! 0 = 7 \<and> sm ! 1 = 9 \<and> sm ! 2 = 11 \<and> sm ! 3 = 4"
proof -
  let ?seq = "''AgCTN''" and ?pssm = "[1, 2, 3, 4, 5, 6, 7, 8] :: real list"
  have a: "\<forall>c\<in>set [2 :: int]. 0 \<le> c" "(1 :: int) = int (length [2 :: int])"
    "(5 :: int) = int (length ?seq)" "4 * sum_list [2 :: int] \<le> int (length ?pssm)"
    "(4 :: int) = 5 - sum_list [2 :: int] + 1" "(1 :: int) * 4 \<le> int (length [0, 0, 0, 0 :: real])"
    by simp_all
  from fill_matrix_columns [OF a] obtain sm where sm:
    "fill_matrix ?seq 5 ?pssm [2] 1 [0, 0, 0, 0] 4 = Some sm"
    "\<forall>i p. 0 \<le> i \<and> i < 1 \<and> 0 \<le> p \<and> p < 4 \<longrightarrow>
       sm ! nat (i * 4 + p) =
         (\<Sum>k = 0..<nat ([2] ! nat i).
            case base_column (?seq ! (nat (sum_list (take (nat i) [2]) + p) + k)) of
              None \<Rightarrow> 0
            | Some c \<Rightarrow> ?pssm ! (4 * (nat (sum_list (take (nat i) [2])) + k) + c))"
    by blast
  have "sm ! 0 = 7" using sm(2) [rule_format, of 0 0]
    by (simp add: base_column_def numeral_2_eq_2)
  moreover have "sm ! 1 = 9" using sm(2) [rule_format, of 0 1]
    by (simp add: base_column_def numeral_2_eq_2)
  moreover have "sm ! 2 = 11" using sm(2) [rule_format, of 0 2]
    by (simp add: base_column_def numeral_2_eq_2 numeral_3_eq_3)
  moreover have "sm ! 3 = 4" using sm(2) [rule_format, of 0 3]
    by (simp add: base_column_def numeral_2_eq_2 numeral_3_eq_3)
  ultimately show ?thesis using sm(1) by blast
qed


section \<open>One recognizer\<close>

lemma single_recognizer:
  assumes w: "0 \<le> w" "w \<le> int (length seq)" and pssm: "4 * w \<le> int (length rec_matrices)"
    and out: "rec_scores \<noteq> []" "con_scores \<noteq> []" "con_lengths \<noteq> []"
  shows "\<exists>m. py_calculate NUMERATORS seq rec_matrices [w] con_matrices rec_scores con_scores
                con_lengths max_length
              = Some (rec_scores[0 := position_score seq rec_matrices 0 w m],
                      con_scores[0 := 0], con_lengths[0 := m])
          \<and> 0 \<le> m \<and> m \<le> int (length seq) - w
          \<and> (\<forall>p. 0 \<le> p \<and> p \<le> int (length seq) - w \<longrightarrow>
                 position_score seq rec_matrices 0 w p \<le> position_score seq rec_matrices 0 w m)
          \<and> (\<forall>p. 0 \<le> p \<and> p < m \<longrightarrow>
                 position_score seq rec_matrices 0 w p < position_score seq rec_matrices 0 w m)"
proof -
  let ?L = "int (length seq)"
  let ?A = "?L - (w - 1)"
  let ?ps = "position_score seq rec_matrices 0 w"
  have f: "get_forward_offset 0 [w] 1 = Some 0"
    using get_forward_offset_eq [of 0 "[w]" 1] by simp
  have r: "get_reverse_offset 0 [w] 1 = Some (w - 1)"
    using get_reverse_offset_eq [of 0 1 "[w]"] by simp
  have "\<exists>sm. fill_matrix seq ?L rec_matrices [w] 1 (replicate (nat ?A) 0) ?A = Some sm
          \<and> length sm = length (replicate (nat ?A) (0 :: real))
          \<and> (\<forall>i p. 0 \<le> i \<and> i < 1 \<and> 0 \<le> p \<and> p < ?A \<longrightarrow>
                 sm ! nat (i * ?A + p) =
                   position_score seq rec_matrices (sum_list (take (nat i) [w])) ([w] ! nat i)
                     (sum_list (take (nat i) [w]) + p))"
    by (rule fill_matrix_cells) (use w pssm in simp_all)
  then obtain sm where sm: "fill_matrix seq ?L rec_matrices [w] 1 (replicate (nat ?A) 0) ?A = Some sm"
      "length sm = nat ?A" "\<forall>p. 0 \<le> p \<and> p < ?A \<longrightarrow> sm ! nat p = ?ps p"
    by fastforce
  have "1 \<le> ?A" "?A \<le> int (length sm)" using w sm(2) by simp_all
  from max_index_first_max [OF this] obtain m where m: "max_index sm ?A = Some m" "0 \<le> m" "m < ?A"
      "\<forall>p. 0 \<le> p \<and> p < ?A \<longrightarrow> sm ! nat p \<le> sm ! nat m"
      "\<forall>p. 0 \<le> p \<and> p < m \<longrightarrow> sm ! nat p < sm ! nat m"
    by blast
  have w1: "wr con_lengths 0 m = Some (con_lengths[0 := m])" using out by (simp add: wr_def)
  have r1: "rd (con_lengths[0 := m]) 0 = Some m" using out by (simp add: rd_def)
  have r2: "rd sm m = Some (?ps m)" using m sm by (simp add: rd_def)
  have w2: "wr rec_scores 0 (?ps m) = Some (rec_scores[0 := ?ps m])" using out by (simp add: wr_def)
  have w3: "wr con_scores 0 0 = Some (con_scores[0 := 0])" using out by (simp add: wr_def)
  have "py_calculate NUMERATORS seq rec_matrices [w] con_matrices rec_scores con_scores
            con_lengths max_length
          = Some (rec_scores[0 := ?ps m], con_scores[0 := 0], con_lengths[0 := m])"
    unfolding py_calculate_def by (simp add: f r sm(1) m(1) w1 r1 r2 w2 w3 Let_def)
  moreover have "?ps p \<le> ?ps m" if "0 \<le> p \<and> p \<le> ?L - w" for p
    using m(4) [rule_format, of p] sm(3) m(2,3) that by simp
  moreover have "?ps p < ?ps m" if "0 \<le> p \<and> p < m" for p
    using m(5) [rule_format, of p] sm(3) m(2,3) that by simp
  ultimately show ?thesis using m(2,3) by auto
qed


text \<open>
  Claim C1. With one recognizer of width \<open>w\<close> that fits the sequence, the first cell of
  \<^verbatim>\<open>con_lengths\<close> receives the first position \<open>m\<close> of the largest position score, the first
  cell of \<^verbatim>\<open>rec_scores\<close> the score at \<open>m\<close>, and the first cell of \<^verbatim>\<open>con_scores\<close> the value 0.
\<close>

theorem py_calculate_single:
  assumes "0 \<le> w" "w \<le> int (length seq)" and "4 * w \<le> int (length rec_matrices)"
    and "rec_scores \<noteq> []" "con_scores \<noteq> []" "con_lengths \<noteq> []"
  shows "\<exists>m. py_calculate NUMERATORS seq rec_matrices [w] con_matrices rec_scores con_scores
                con_lengths max_length
              = Some (rec_scores[0 := position_score seq rec_matrices 0 w m],
                      con_scores[0 := 0], con_lengths[0 := m])
          \<and> 0 \<le> m \<and> m \<le> int (length seq) - w
          \<and> (\<forall>p. 0 \<le> p \<and> p \<le> int (length seq) - w \<longrightarrow>
                 position_score seq rec_matrices 0 w p \<le> position_score seq rec_matrices 0 w m)
          \<and> (\<forall>p. 0 \<le> p \<and> p < m \<longrightarrow>
                 position_score seq rec_matrices 0 w p < position_score seq rec_matrices 0 w m)"
  using assms by (rule single_recognizer)

lemma example_scores:
  "position_score ''AgCTN'' [1, 2, 3, 4, 5, 6, 7, 8] 0 2 0 = 7"
  "position_score ''AgCTN'' [1, 2, 3, 4, 5, 6, 7, 8] 0 2 1 = 9"
  "position_score ''AgCTN'' [1, 2, 3, 4, 5, 6, 7, 8] 0 2 2 = 11"
  "position_score ''AgCTN'' [1, 2, 3, 4, 5, 6, 7, 8] 0 2 3 = 4"
  by (simp_all add: position_score_def base_column_def numeral_2_eq_2 numeral_3_eq_3)

theorem py_calculate_single_witness:
  "py_calculate [] ''AgCTN'' [1, 2, 3, 4, 5, 6, 7, 8] [2] [] [0, 0] [0] [0] 0
     = Some ([11, 0], [0], [2])"
proof -
  let ?ps = "position_score ''AgCTN'' [1, 2, 3, 4, 5, 6, 7, 8] 0 2"
  have a: "(0 :: int) \<le> 2" "(2 :: int) \<le> int (length ''AgCTN'')"
    "4 * (2 :: int) \<le> int (length [1, 2, 3, 4, 5, 6, 7, 8 :: real])"
    "[0, 0 :: real] \<noteq> []" "[0 :: real] \<noteq> []" "[0 :: int] \<noteq> []"
    by simp_all
  from py_calculate_single [OF a, of "[]" "[]" 0] obtain m where m:
    "py_calculate [] ''AgCTN'' [1, 2, 3, 4, 5, 6, 7, 8] [2] [] [0, 0] [0] [0] 0
       = Some ([0, 0][0 := ?ps m], [0][0 := 0], [0][0 := m])"
    "0 \<le> m" "m \<le> int (length ''AgCTN'') - 2"
    "\<forall>p. 0 \<le> p \<and> p \<le> int (length ''AgCTN'') - 2 \<longrightarrow> ?ps p \<le> ?ps m"
    by blast
  have "?ps 2 \<le> ?ps m" using m(4) [rule_format, of 2] by simp
  moreover have "m = 0 \<or> m = 1 \<or> m = 2 \<or> m = 3" using m(2,3) by auto
  ultimately have "m = 2" using example_scores by auto
  then show ?thesis using m(1) example_scores by simp
qed

section \<open>One stage of the placement solver\<close>








section \<open>Ties between gaps\<close>














section \<open>All stages, and the way back\<close>










subsection \<open>Sums along a placement\<close>









subsection \<open>The reported scores\<close>








subsection \<open>The reported connector lengths\<close>





end
